theory Spec2Isabelle
  imports Main "HOL-Library.Word"
begin

section \<open>The object pool of \<^verbatim>\<open>codes/pool/main.cpp\<close>\<close>

text \<open>
  The class \<^verbatim>\<open>ObjectPool<T>\<close> keeps raw pointers \<^verbatim>\<open>T*\<close> in a \<^verbatim>\<open>std::stack\<close>,
  a \<^verbatim>\<open>std::mutex\<close> and a \<^verbatim>\<open>const int capacity\<close>. The embedding is sequential: one
  member function runs at a time, so the mutex is free whenever a call starts, and what a
  call does with it is recorded as the events \<open>Lock\<close> and \<open>Unlock\<close> it emits.

  \<^item> A pointer is \<open>nullptr\<close> or an address; two pointers are the same object exactly when
    they are equal.
  \<^item> \<^verbatim>\<open>int\<close> is a 32-bit two's complement integer (\<open>32 word\<close>, read by \<open>sint\<close>), as on
    every target of the \<^verbatim>\<open>g++\<close> command the source gives; \<^verbatim>\<open>size_t\<close> is wider, and its
    conversion to \<^verbatim>\<open>int\<close> keeps the low 32 bits.
  \<^item> The stack is a list whose head is the top.
  \<^item> A \<^verbatim>\<open>throw\<close> is the \<open>Inl\<close> branch of the result; the state at the throw is returned
    with it. The message strings of the exceptions are left out.
  \<^item> Running out of memory (\<^verbatim>\<open>std::bad_alloc\<close> inside \<^verbatim>\<open>push\<close>) is outside the model.
\<close>

subsection \<open>Data\<close>

datatype ptr = nullptr | Ptr nat

type_synonym int32 = "32 word"

datatype error = runtime_error | invalid_argument

datatype event = Lock | Unlock | Delete ptr

record ObjectPool =
  pool :: "ptr list"
  capacity :: int32

subsection \<open>Member functions\<close>

text \<open>\<^verbatim>\<open>explicit ObjectPool(int cap) : capacity(cap) {}\<close>: the stack starts empty.\<close>

definition ObjectPool :: "int32 \<Rightarrow> ObjectPool" where
  "ObjectPool cap = \<lparr>pool = [], capacity = cap\<rparr>"

text \<open>
  \<^verbatim>\<open>~ObjectPool()\<close>: while the stack is not empty, read the top, pop it, delete it. The
  mutex is not taken. The result is the pool after the loop and the deletions in the order
  they happen.
\<close>

function ObjectPool_dtor :: "ObjectPool \<Rightarrow> ObjectPool \<times> event list" where
  "ObjectPool_dtor p =
     (case pool p of
        [] \<Rightarrow> (p, [])
      | obj # rest \<Rightarrow>
          (case ObjectPool_dtor (p\<lparr>pool := rest\<rparr>) of
             (p', es) \<Rightarrow> (p', Delete obj # es)))"
  by pat_completeness auto
termination
  by (relation "measure (\<lambda>p. length (pool p))") auto

declare ObjectPool_dtor.simps [simp del]

text \<open>\<^verbatim>\<open>int GetCapacity() const\<close>: no lock, no effect.\<close>

definition GetCapacity :: "ObjectPool \<Rightarrow> int32" where
  "GetCapacity p = capacity p"

text \<open>
  \<^verbatim>\<open>int GetCount()\<close>: under the lock, \<^verbatim>\<open>pool.size()\<close> converted from \<^verbatim>\<open>size_t\<close> to
  \<^verbatim>\<open>int\<close>.
\<close>

definition GetCount :: "ObjectPool \<Rightarrow> int32 \<times> ObjectPool \<times> event list" where
  "GetCount p = (word_of_nat (length (pool p)), p, [Lock, Unlock])"

text \<open>
  \<^verbatim>\<open>T* Pop()\<close>: under the lock, throw \<^verbatim>\<open>std::runtime_error\<close> on an empty stack,
  otherwise remove the top and return it. The \<^verbatim>\<open>lock_guard\<close> unlocks on both ways out.
\<close>

definition Pop :: "ObjectPool \<Rightarrow> (error + ptr) \<times> ObjectPool \<times> event list" where
  "Pop p =
     (case pool p of
        [] \<Rightarrow> (Inl runtime_error, p, [Lock, Unlock])
      | obj # rest \<Rightarrow> (Inr obj, p\<lparr>pool := rest\<rparr>, [Lock, Unlock]))"

text \<open>
  \<^verbatim>\<open>void Push(T* item)\<close>: throw \<^verbatim>\<open>std::invalid_argument\<close> on \<^verbatim>\<open>nullptr\<close>, before the
  \<^verbatim>\<open>lock_guard\<close> is constructed; otherwise push under the lock. Nothing compares the size
  with \<open>capacity\<close>.
\<close>

definition Push :: "ObjectPool \<Rightarrow> ptr \<Rightarrow> (error + unit) \<times> ObjectPool \<times> event list" where
  "Push p item =
     (if item = nullptr then (Inl invalid_argument, p, [])
      else (Inr (), p\<lparr>pool := item # pool p\<rparr>, [Lock, Unlock]))"

subsection \<open>Callers\<close>

text \<open>
  A caller, like \<^verbatim>\<open>main\<close>, makes one call after the other on the same pool. A call that
  throws is caught by the caller, who goes on with the pool as the throw left it.
\<close>

datatype call = Call_Pop | Call_Push ptr | Call_GetCount | Call_GetCapacity

datatype outcome = Threw error | Returned_ptr ptr | Returned_int int32 | Returned

definition invoke :: "ObjectPool \<Rightarrow> call \<Rightarrow> outcome \<times> ObjectPool \<times> event list" where
  "invoke p c =
     (case c of
        Call_Pop \<Rightarrow>
          (case Pop p of
             (Inl e, p', es) \<Rightarrow> (Threw e, p', es)
           | (Inr obj, p', es) \<Rightarrow> (Returned_ptr obj, p', es))
      | Call_Push item \<Rightarrow>
          (case Push p item of
             (Inl e, p', es) \<Rightarrow> (Threw e, p', es)
           | (Inr u, p', es) \<Rightarrow> (Returned, p', es))
      | Call_GetCount \<Rightarrow>
          (case GetCount p of (n, p', es) \<Rightarrow> (Returned_int n, p', es))
      | Call_GetCapacity \<Rightarrow> (Returned_int (GetCapacity p), p, []))"

fun run :: "ObjectPool \<Rightarrow> call list \<Rightarrow> outcome list \<times> ObjectPool \<times> event list" where
  "run p [] = ([], p, [])"
| "run p (c # cs) =
     (case invoke p c of
        (r, p', es) \<Rightarrow>
          (case run p' cs of (rs, p'', es') \<Rightarrow> (r # rs, p'', es @ es')))"

definition outcomes :: "ObjectPool \<Rightarrow> call list \<Rightarrow> outcome list" where
  "outcomes p cs = fst (run p cs)"

definition final_pool :: "ObjectPool \<Rightarrow> call list \<Rightarrow> ObjectPool" where
  "final_pool p cs = fst (snd (run p cs))"

text \<open>The calls of a run that succeeded, counted from the calls and their outcomes.\<close>

fun give_ok :: "call \<times> outcome \<Rightarrow> bool" where
  "give_ok (Call_Push item, Returned) = True"
| "give_ok other = False"

fun take_ok :: "call \<times> outcome \<Rightarrow> bool" where
  "take_ok (Call_Pop, Returned_ptr obj) = True"
| "take_ok other = False"

definition successful_gives :: "call list \<Rightarrow> outcome list \<Rightarrow> nat" where
  "successful_gives cs rs = length (filter give_ok (zip cs rs))"

definition successful_takes :: "call list \<Rightarrow> outcome list \<Rightarrow> nat" where
  "successful_takes cs rs = length (filter take_ok (zip cs rs))"

text \<open>
  The pool keeps no record of what it has lent. What the callers hold is read off the
  history of calls, in the words of the spec: an item is lent out from the \<open>Pop\<close> that
  returned it until a \<open>Push\<close> of it returns.
\<close>

fun lend :: "ptr list \<Rightarrow> call \<times> outcome \<Rightarrow> ptr list" where
  "lend held (Call_Pop, Returned_ptr obj) = obj # held"
| "lend held (Call_Push item, Returned) = remove1 item held"
| "lend held other = held"

definition lent_out :: "ObjectPool \<Rightarrow> call list \<Rightarrow> ptr list" where
  "lent_out p cs = foldl lend [] (zip cs (outcomes p cs))"

text \<open>
  \<open>Push\<close> does not look whether the pointer is already in the stack. A run in which no
  caller pushes a pointer that the store holds at that moment:
\<close>

fun no_double_give :: "ObjectPool \<Rightarrow> call list \<Rightarrow> bool" where
  "no_double_give p [] = True"
| "no_double_give p (c # cs) =
     ((case c of Call_Push item \<Rightarrow> item \<notin> set (pool p) | other \<Rightarrow> True)
      \<and> no_double_give (fst (snd (invoke p c))) cs)"

text \<open>
  The calls of \<^verbatim>\<open>main\<close> on its pool of capacity 10, in order. The three connections
  it allocates are the addresses 1, 2 and 3.
\<close>

definition main_calls :: "call list" where
  "main_calls =
     [Call_GetCapacity, Call_GetCount,
      Call_Push (Ptr 1), Call_Push (Ptr 2), Call_Push (Ptr 3), Call_GetCount,
      Call_Pop, Call_GetCount, Call_Pop, Call_GetCount,
      Call_Push (Ptr 3), Call_GetCount, Call_Pop]"

section \<open>Auxiliary facts\<close>

lemma ObjectPool_dtor_eq: "ObjectPool_dtor p = (p\<lparr>pool := []\<rparr>, map Delete (pool p))"
proof (induction "pool p" arbitrary: p)
  case Nil
  then show ?case by (simp add: ObjectPool_dtor.simps [of p] flip: Nil)
next
  case (Cons obj rest)
  from Cons(2) have eq: "pool p = obj # rest" by simp
  have "ObjectPool_dtor (p\<lparr>pool := rest\<rparr>) = (p\<lparr>pool := []\<rparr>, map Delete rest)"
    using Cons(1) [of "p\<lparr>pool := rest\<rparr>"] by simp
  then show ?case by (simp add: ObjectPool_dtor.simps [of p] eq)
qed

lemma fst_run_Cons:
  "fst (run p (c # cs)) = fst (invoke p c) # fst (run (fst (snd (invoke p c))) cs)"
  by (simp split: prod.splits)

lemma pool_run_Cons:
  "fst (snd (run p (c # cs))) = fst (snd (run (fst (snd (invoke p c))) cs))"
  by (simp split: prod.splits)

lemma invoke_capacity: "capacity (fst (snd (invoke p c))) = capacity p"
  by (auto simp: invoke_def Pop_def Push_def GetCount_def split: call.splits list.splits)

lemma run_capacity: "capacity (fst (snd (run p cs))) = capacity p"
proof (induction cs arbitrary: p)
  case Nil
  show ?case by simp
next
  case (Cons c cs)
  have "capacity (fst (snd (run p (c # cs))))
      = capacity (fst (snd (run (fst (snd (invoke p c))) cs)))"
    by (simp only: pool_run_Cons)
  also have "\<dots> = capacity (fst (snd (invoke p c)))"
    by (rule Cons.IH)
  also have "\<dots> = capacity p"
    by (rule invoke_capacity)
  finally show ?case .
qed

lemma invoke_nonnull:
  "nullptr \<notin> set (pool p) \<Longrightarrow> nullptr \<notin> set (pool (fst (snd (invoke p c))))
     \<and> fst (invoke p c) \<noteq> Returned_ptr nullptr"
  by (auto simp: invoke_def Pop_def Push_def GetCount_def split: call.splits list.splits)

lemma run_nonnull:
  "nullptr \<notin> set (pool p) \<Longrightarrow> nullptr \<notin> set (pool (fst (snd (run p cs))))
     \<and> Returned_ptr nullptr \<notin> set (fst (run p cs))"
proof (induction cs arbitrary: p)
  case Nil
  then show ?case by simp
next
  case (Cons c cs)
  obtain r p' es where i: "invoke p c = (r, p', es)" by (cases "invoke p c")
  from invoke_nonnull [OF Cons.prems, of c] i
  have "nullptr \<notin> set (pool p')" and "r \<noteq> Returned_ptr nullptr" by simp_all
  with Cons.IH [of p'] i show ?case
    by (simp only: fst_run_Cons pool_run_Cons) auto
qed

lemma invoke_count:
  "invoke p c = (r, p', es) \<Longrightarrow>
     length (pool p') + (if take_ok (c, r) then 1 else 0)
       = length (pool p) + (if give_ok (c, r) then 1 else 0)"
  by (auto simp: invoke_def Pop_def Push_def GetCount_def split: call.splits list.splits if_splits)

lemma run_count:
  "length (pool (fst (snd (run p cs)))) + successful_takes cs (fst (run p cs))
     = length (pool p) + successful_gives cs (fst (run p cs))"
proof (induction cs arbitrary: p)
  case Nil
  show ?case by (simp add: successful_takes_def successful_gives_def)
next
  case (Cons c cs)
  obtain r p' es where i: "invoke p c = (r, p', es)" by (cases "invoke p c")
  from invoke_count [OF i] Cons [of p'] i show ?case
    by (simp only: fst_run_Cons pool_run_Cons)
      (auto simp: successful_takes_def successful_gives_def)
qed

lemma run_replicate_Push:
  "item \<noteq> nullptr \<Longrightarrow>
     run p (replicate n (Call_Push item))
       = (replicate n Returned, p\<lparr>pool := replicate n item @ pool p\<rparr>,
          concat (replicate n [Lock, Unlock]))"
proof (induction n arbitrary: p)
  case 0
  show ?case by simp
next
  case (Suc n)
  from Suc.prems have i: "invoke p (Call_Push item)
      = (Returned, p\<lparr>pool := item # pool p\<rparr>, [Lock, Unlock])"
    by (simp add: invoke_def Push_def)
  from Suc.IH [OF Suc.prems, of "p\<lparr>pool := item # pool p\<rparr>"] i show ?case
    by (simp add: replicate_app_Cons_same)
qed

lemma gives_replicate:
  "successful_gives (replicate n (Call_Push item)) (replicate n Returned) = n"
  by (simp add: successful_gives_def filter_replicate)

lemma takes_replicate:
  "successful_takes (replicate n (Call_Push item)) (replicate n Returned) = 0"
  by (simp add: successful_takes_def filter_replicate)

lemma sint_count: "n < 2 ^ 31 \<Longrightarrow> sint (word_of_nat n :: int32) = int n"
  by (simp add: signed_of_nat signed_take_bit_int_eq_self)

lemma run_main:
  "run (ObjectPool 10) main_calls =
     ([Returned_int 10, Returned_int 0, Returned, Returned, Returned, Returned_int 3,
       Returned_ptr (Ptr 3), Returned_int 2, Returned_ptr (Ptr 2), Returned_int 1,
       Returned, Returned_int 2, Returned_ptr (Ptr 3)],
      \<lparr>pool = [Ptr 1], capacity = 10\<rparr>,
      [Lock, Unlock, Lock, Unlock, Lock, Unlock, Lock, Unlock, Lock, Unlock, Lock, Unlock,
       Lock, Unlock, Lock, Unlock, Lock, Unlock, Lock, Unlock, Lock, Unlock, Lock, Unlock])"
  by (simp add: main_calls_def ObjectPool_def invoke_def Push_def Pop_def GetCount_def
      GetCapacity_def)

lemma lend_invoke:
  assumes "invoke p c = (r, p', es)"
    and "case c of Call_Push item \<Rightarrow> item \<notin> set (pool p) | other \<Rightarrow> True"
    and "distinct (pool p)" and "distinct held" and "set held \<inter> set (pool p) = {}"
  shows "distinct (pool p') \<and> distinct (lend held (c, r))
    \<and> set (lend held (c, r)) \<inter> set (pool p') = {}"
proof (cases c)
  case Call_Pop
  with assms show ?thesis
    by (auto simp: invoke_def Pop_def split: list.splits)
next
  case (Call_Push item)
  with assms show ?thesis
    by (auto simp: invoke_def Push_def split: if_splits)
next
  case Call_GetCount
  with assms show ?thesis
    by (auto simp: invoke_def GetCount_def)
next
  case Call_GetCapacity
  with assms show ?thesis
    by (auto simp: invoke_def)
qed

lemma lend_run:
  "no_double_give p cs \<Longrightarrow> distinct (pool p) \<Longrightarrow> distinct held
     \<Longrightarrow> set held \<inter> set (pool p) = {}
     \<Longrightarrow> set (foldl lend held (zip cs (fst (run p cs))))
           \<inter> set (pool (fst (snd (run p cs)))) = {}"
proof (induction cs arbitrary: p held)
  case Nil
  then show ?case by simp
next
  case (Cons c cs)
  obtain r p' es where i: "invoke p c = (r, p', es)" by (cases "invoke p c")
  from Cons.prems(1) i
  have ok: "case c of Call_Push item \<Rightarrow> item \<notin> set (pool p) | other \<Rightarrow> True"
    and rest: "no_double_give p' cs"
    by simp_all
  from lend_invoke [OF i ok Cons.prems(2,3,4)]
  have "distinct (pool p')" and "distinct (lend held (c, r))"
    and "set (lend held (c, r)) \<inter> set (pool p') = {}"
    by simp_all
  from Cons.IH [OF rest this] i show ?case
    by (simp only: fst_run_Cons pool_run_Cons) simp
qed

lemma final_pool_replicate_Push:
  "item \<noteq> nullptr \<Longrightarrow>
     final_pool p (replicate n (Call_Push item)) = p\<lparr>pool := replicate n item @ pool p\<rparr>"
  by (simp add: final_pool_def run_replicate_Push)

lemma Pop_replicate:
  "Pop (p\<lparr>pool := replicate (Suc n) item @ rest\<rparr>)
     = (Inr item, p\<lparr>pool := replicate n item @ rest\<rparr>, [Lock, Unlock])"
  by (simp add: Pop_def)

lemma lent_main: "lent_out (ObjectPool 10) main_calls = [Ptr 3, Ptr 2]"
  unfolding lent_out_def outcomes_def run_main by (simp add: main_calls_def)

lemma no_double_give_main: "no_double_give (ObjectPool 10) main_calls"
  by (simp add: main_calls_def ObjectPool_def invoke_def Push_def Pop_def GetCount_def)

section \<open>Properties\<close>

text \<open>
  Claim C1. After three successful \<open>Push\<close> calls of \<open>a\<close>, \<open>b\<close> and \<open>c\<close>, with no \<open>Pop\<close>
  between them, three \<open>Pop\<close> calls return \<open>c\<close>, then \<open>b\<close>, then \<open>a\<close>, and walk back
  through the same pool states.
\<close>

theorem lifo_order:
  assumes "Push p a = (Inr (), p1, e1)"
    and "Push p1 b = (Inr (), p2, e2)"
    and "Push p2 c = (Inr (), p3, e3)"
  shows "Pop p3 = (Inr c, p2, [Lock, Unlock])
    \<and> Pop p2 = (Inr b, p1, [Lock, Unlock])
    \<and> Pop p1 = (Inr a, p, [Lock, Unlock])"
  using assms by (auto simp: Push_def Pop_def split: if_splits)

theorem lifo_order_witness:
  "Push (ObjectPool 10) (Ptr 1) = (Inr (), \<lparr>pool = [Ptr 1], capacity = 10\<rparr>, [Lock, Unlock])
   \<and> Push \<lparr>pool = [Ptr 1], capacity = 10\<rparr> (Ptr 2)
       = (Inr (), \<lparr>pool = [Ptr 2, Ptr 1], capacity = 10\<rparr>, [Lock, Unlock])
   \<and> Push \<lparr>pool = [Ptr 2, Ptr 1], capacity = 10\<rparr> (Ptr 3)
       = (Inr (), \<lparr>pool = [Ptr 3, Ptr 2, Ptr 1], capacity = 10\<rparr>, [Lock, Unlock])
   \<and> Pop \<lparr>pool = [Ptr 3, Ptr 2, Ptr 1], capacity = 10\<rparr>
       = (Inr (Ptr 3), \<lparr>pool = [Ptr 2, Ptr 1], capacity = 10\<rparr>, [Lock, Unlock])
   \<and> Pop \<lparr>pool = [Ptr 2, Ptr 1], capacity = 10\<rparr>
       = (Inr (Ptr 2), \<lparr>pool = [Ptr 1], capacity = 10\<rparr>, [Lock, Unlock])
   \<and> Pop \<lparr>pool = [Ptr 1], capacity = 10\<rparr> = (Inr (Ptr 1), ObjectPool 10, [Lock, Unlock])"
proof -
  have g1: "Push (ObjectPool 10) (Ptr 1)
      = (Inr (), \<lparr>pool = [Ptr 1], capacity = 10\<rparr>, [Lock, Unlock])"
    by (simp add: Push_def ObjectPool_def)
  have g2: "Push \<lparr>pool = [Ptr 1], capacity = 10\<rparr> (Ptr 2)
      = (Inr (), \<lparr>pool = [Ptr 2, Ptr 1], capacity = 10\<rparr>, [Lock, Unlock])"
    by (simp add: Push_def)
  have g3: "Push \<lparr>pool = [Ptr 2, Ptr 1], capacity = 10\<rparr> (Ptr 3)
      = (Inr (), \<lparr>pool = [Ptr 3, Ptr 2, Ptr 1], capacity = 10\<rparr>, [Lock, Unlock])"
    by (simp add: Push_def)
  from lifo_order [OF g1 g2 g3] g1 g2 g3 show ?thesis by simp
qed

text \<open>
  Claim C2. \<open>Pop\<close> on a pool whose \<open>GetCount\<close> is 0 should throw and leave the count
  at 0. \<open>Pop\<close> tests the stack itself and does so on a store that holds no item (the
  lemma after this one), but \<open>GetCount\<close> is also 0 on a store of \<open>2 ^ 32\<close> items, where
  the conversion to \<^verbatim>\<open>int\<close> drops the high bits: there \<open>Pop\<close> returns an item and
  \<open>GetCount\<close> moves from 0 to \<open>- 1\<close>.
\<close>

theorem take_at_size_zero_returns_item:
  "fst (GetCount (final_pool (ObjectPool 10) (replicate 4294967296 (Call_Push (Ptr 1))))) = 0
   \<and> fst (Pop (final_pool (ObjectPool 10) (replicate 4294967296 (Call_Push (Ptr 1)))))
       = Inr (Ptr 1)
   \<and> sint (fst (GetCount (fst (snd (Pop (final_pool (ObjectPool 10)
         (replicate 4294967296 (Call_Push (Ptr 1)))))))))
       = - 1"
proof -
  define m :: nat where "m = 4294967295"
  have n: "(4294967296 :: nat) = Suc m"
    by (simp add: m_def)
  have nn: "Ptr 1 \<noteq> nullptr"
    by simp
  have f: "final_pool (ObjectPool 10) (replicate (Suc m) (Call_Push (Ptr 1)))
      = (ObjectPool 10)\<lparr>pool := replicate (Suc m) (Ptr 1) @ pool (ObjectPool 10)\<rparr>"
    using nn by (rule final_pool_replicate_Push)
  have c: "fst (GetCount (final_pool (ObjectPool 10) (replicate (Suc m) (Call_Push (Ptr 1)))))
      = 0"
    unfolding f by (simp add: GetCount_def ObjectPool_def m_def)
  have t: "Pop (final_pool (ObjectPool 10) (replicate (Suc m) (Call_Push (Ptr 1))))
      = (Inr (Ptr 1), (ObjectPool 10)\<lparr>pool := replicate m (Ptr 1) @ pool (ObjectPool 10)\<rparr>,
         [Lock, Unlock])"
    unfolding f by (rule Pop_replicate)
  have a: "sint (fst (GetCount (fst (snd (Pop (final_pool (ObjectPool 10)
      (replicate (Suc m) (Call_Push (Ptr 1))))))))) = - 1"
    unfolding t by (simp add: GetCount_def ObjectPool_def m_def)
  from c t a show ?thesis
    unfolding n by simp
qed

text \<open>
  On a store that holds no item \<open>Pop\<close> throws \<^verbatim>\<open>std::runtime_error\<close> (the spec's
  \<open>EmptyPool\<close>) and hands back the pool as it was: the store is the same, and \<open>GetCount\<close>
  is 0 before and after.
\<close>

lemma Pop_empty_store:
  assumes "pool p = []"
  shows "Pop p = (Inl runtime_error, p, [Lock, Unlock])
    \<and> fst (GetCount p) = 0
    \<and> fst (GetCount (fst (snd (Pop p)))) = 0
    \<and> pool (fst (snd (Pop p))) = pool p"
  using assms by (simp add: Pop_def GetCount_def)

text \<open>
  Claim C3. \<open>Push\<close> of \<open>nullptr\<close> throws \<^verbatim>\<open>std::invalid_argument\<close> on every pool, hands
  back the pool as it was (same store, same \<open>GetCount\<close>) and emits no event: the throw
  comes before the mutex is locked.
\<close>

theorem give_null_rejected:
  "Push p nullptr = (Inl invalid_argument, p, [])
   \<and> pool (fst (snd (Push p nullptr))) = pool p
   \<and> fst (GetCount (fst (snd (Push p nullptr)))) = fst (GetCount p)
   \<and> Lock \<notin> set (snd (snd (Push p nullptr)))"
  by (simp add: Push_def)

text \<open>
  Claim C4. \<open>Push\<close> of a pointer other than \<open>nullptr\<close> succeeds on every pool, whatever
  the size of the store and the capacity: any number of such calls in a row all return, the
  store grows by one item each time, the capacity stays as it was, and one call more than
  the capacity leaves the store larger than the capacity.
\<close>

theorem give_ignores_capacity:
  assumes "item \<noteq> nullptr"
  shows "Push p item = (Inr (), p\<lparr>pool := item # pool p\<rparr>, [Lock, Unlock])
    \<and> outcomes p (replicate n (Call_Push item)) = replicate n Returned
    \<and> length (pool (final_pool p (replicate n (Call_Push item)))) = length (pool p) + n
    \<and> GetCapacity (final_pool p (replicate n (Call_Push item))) = GetCapacity p
    \<and> sint (GetCapacity p)
        < int (length (pool (final_pool p
            (replicate (Suc (nat (sint (GetCapacity p)))) (Call_Push item)))))"
proof -
  have r: "run p (replicate m (Call_Push item))
      = (replicate m Returned, p\<lparr>pool := replicate m item @ pool p\<rparr>,
         concat (replicate m [Lock, Unlock]))" for m
    using assms by (rule run_replicate_Push)
  have "Push p item = (Inr (), p\<lparr>pool := item # pool p\<rparr>, [Lock, Unlock])"
    using assms by (simp add: Push_def)
  moreover have "outcomes p (replicate n (Call_Push item)) = replicate n Returned"
    by (simp add: outcomes_def r)
  moreover have len: "length (pool (final_pool p (replicate m (Call_Push item))))
      = length (pool p) + m" for m
    by (simp add: final_pool_def r)
  moreover have "GetCapacity (final_pool p (replicate n (Call_Push item))) = GetCapacity p"
    by (simp add: final_pool_def GetCapacity_def r)
  moreover have "sint (GetCapacity p)
      < int (length (pool (final_pool p
          (replicate (Suc (nat (sint (GetCapacity p)))) (Call_Push item)))))"
    unfolding len by simp
  ultimately show ?thesis by (simp only: len simp_thms)
qed

theorem give_ignores_capacity_witness:
  "Ptr 1 \<noteq> nullptr
   \<and> outcomes (ObjectPool 2) (replicate 5 (Call_Push (Ptr 1))) = replicate 5 Returned
   \<and> length (pool (final_pool (ObjectPool 2) (replicate 5 (Call_Push (Ptr 1))))) = 5
   \<and> sint (GetCapacity (ObjectPool 2)) = 2"
proof -
  have h: "Ptr 1 \<noteq> nullptr" by simp
  from give_ignores_capacity [OF h, of "ObjectPool 2" 5] h show ?thesis
    by (simp add: ObjectPool_def GetCapacity_def)
qed

text \<open>
  Claim C5. After a successful \<open>Push\<close> of \<open>x\<close>, the next \<open>Pop\<close> returns the pointer \<open>x\<close>
  itself and leaves the pool as it was before the \<open>Push\<close>; a \<open>GetCount\<close> in between
  changes nothing.
\<close>

theorem round_trip_identity:
  assumes "Push p x = (Inr (), p', es)"
  shows "Pop p' = (Inr x, p, [Lock, Unlock])
    \<and> Pop (fst (snd (GetCount p'))) = (Inr x, p, [Lock, Unlock])"
  using assms by (auto simp: Push_def Pop_def GetCount_def split: if_splits)

theorem round_trip_identity_witness:
  "Push \<lparr>pool = [Ptr 1], capacity = 10\<rparr> (Ptr 3)
       = (Inr (), \<lparr>pool = [Ptr 3, Ptr 1], capacity = 10\<rparr>, [Lock, Unlock])
   \<and> Pop \<lparr>pool = [Ptr 3, Ptr 1], capacity = 10\<rparr>
       = (Inr (Ptr 3), \<lparr>pool = [Ptr 1], capacity = 10\<rparr>, [Lock, Unlock])"
proof -
  have g: "Push \<lparr>pool = [Ptr 1], capacity = 10\<rparr> (Ptr 3)
      = (Inr (), \<lparr>pool = [Ptr 3, Ptr 1], capacity = 10\<rparr>, [Lock, Unlock])"
    by (simp add: Push_def)
  from round_trip_identity [OF g] g show ?thesis by simp
qed

text \<open>
  Claim C6. \<open>GetCount\<close> should return the number of \<open>Push\<close> calls that returned minus
  the number of \<open>Pop\<close> calls that returned. After \<open>2 ^ 31\<close> successful \<open>Push\<close> calls and
  no \<open>Pop\<close> on a fresh pool the store holds \<open>2 ^ 31\<close> items, \<^verbatim>\<open>return pool.size()\<close>
  narrows that \<^verbatim>\<open>size_t\<close> to \<^verbatim>\<open>int\<close>, and \<open>GetCount\<close> returns \<open>- (2 ^ 31)\<close>.
\<close>

theorem size_accounting_fails_at_int_limit:
  "sint (fst (GetCount (final_pool (ObjectPool 10)
       (replicate 2147483648 (Call_Push (Ptr 1))))))
     \<noteq> int (successful_gives (replicate 2147483648 (Call_Push (Ptr 1)))
            (outcomes (ObjectPool 10) (replicate 2147483648 (Call_Push (Ptr 1)))))
       - int (successful_takes (replicate 2147483648 (Call_Push (Ptr 1)))
            (outcomes (ObjectPool 10) (replicate 2147483648 (Call_Push (Ptr 1)))))
   \<and> sint (fst (GetCount (final_pool (ObjectPool 10)
       (replicate 2147483648 (Call_Push (Ptr 1)))))) = - 2147483648
   \<and> successful_gives (replicate 2147483648 (Call_Push (Ptr 1)))
       (outcomes (ObjectPool 10) (replicate 2147483648 (Call_Push (Ptr 1)))) = 2147483648
   \<and> successful_takes (replicate 2147483648 (Call_Push (Ptr 1)))
       (outcomes (ObjectPool 10) (replicate 2147483648 (Call_Push (Ptr 1)))) = 0"
proof -
  define n :: nat where "n = 2147483648"
  have nn: "Ptr 1 \<noteq> nullptr" by simp
  have r: "run (ObjectPool 10) (replicate n (Call_Push (Ptr 1)))
      = (replicate n Returned,
         (ObjectPool 10)\<lparr>pool := replicate n (Ptr 1) @ pool (ObjectPool 10)\<rparr>,
         concat (replicate n [Lock, Unlock]))"
    using nn by (rule run_replicate_Push)
  have c: "sint (fst (GetCount (final_pool (ObjectPool 10)
      (replicate n (Call_Push (Ptr 1)))))) = - 2147483648"
    unfolding final_pool_def r by (simp add: GetCount_def ObjectPool_def n_def)
  have g: "successful_gives (replicate n (Call_Push (Ptr 1)))
      (outcomes (ObjectPool 10) (replicate n (Call_Push (Ptr 1)))) = n"
    unfolding outcomes_def r fst_conv by (rule gives_replicate)
  have t: "successful_takes (replicate n (Call_Push (Ptr 1)))
      (outcomes (ObjectPool 10) (replicate n (Call_Push (Ptr 1)))) = 0"
    unfolding outcomes_def r fst_conv by (rule takes_replicate)
  from c g t show ?thesis
    unfolding n_def by simp
qed

text \<open>
  The store itself is counted rightly: after any sequence of calls on a fresh pool it
  holds as many items as \<open>Push\<close> calls returned minus \<open>Pop\<close> calls returned, a \<open>Push\<close>
  that returns adds exactly one item and a \<open>Pop\<close> that returns removes exactly one.
  \<open>GetCount\<close> agrees with the store below \<open>2 ^ 31\<close> items.
\<close>

lemma store_accounting:
  "int (length (pool (final_pool (ObjectPool cap) cs)))
     = int (successful_gives cs (outcomes (ObjectPool cap) cs))
       - int (successful_takes cs (outcomes (ObjectPool cap) cs))
   \<and> (length (pool (final_pool (ObjectPool cap) cs)) < 2 ^ 31 \<longrightarrow>
        sint (fst (GetCount (final_pool (ObjectPool cap) cs)))
          = int (successful_gives cs (outcomes (ObjectPool cap) cs))
            - int (successful_takes cs (outcomes (ObjectPool cap) cs)))
   \<and> (fst (Push p item) = Inr () \<longrightarrow>
        length (pool (fst (snd (Push p item)))) = length (pool p) + 1
        \<and> (length (pool p) + 1 < 2 ^ 31 \<longrightarrow>
             sint (fst (GetCount (fst (snd (Push p item))))) = sint (fst (GetCount p)) + 1))
   \<and> (fst (Pop q) = Inr obj \<longrightarrow>
        length (pool (fst (snd (Pop q)))) + 1 = length (pool q)
        \<and> (length (pool q) < 2 ^ 31 \<longrightarrow>
             sint (fst (GetCount (fst (snd (Pop q))))) = sint (fst (GetCount q)) - 1))"
proof -
  let ?q = "final_pool (ObjectPool cap) cs"
  let ?g = "successful_gives cs (outcomes (ObjectPool cap) cs)"
  let ?t = "successful_takes cs (outcomes (ObjectPool cap) cs)"
  have "length (pool ?q) + ?t = length (pool (ObjectPool cap)) + ?g"
    unfolding final_pool_def outcomes_def by (rule run_count)
  then have n: "int (length (pool ?q)) = int ?g - int ?t"
    by (simp add: ObjectPool_def)
  have c: "sint (fst (GetCount ?q)) = int ?g - int ?t" if "length (pool ?q) < 2 ^ 31"
    using that n by (simp add: GetCount_def sint_count)
  have g: "length (pool (fst (snd (Push p item)))) = length (pool p) + 1"
    if "fst (Push p item) = Inr ()"
    using that by (simp add: Push_def split: if_splits)
  have t: "length (pool (fst (snd (Pop q)))) + 1 = length (pool q)"
    if "fst (Pop q) = Inr obj"
    using that by (simp add: Pop_def split: list.splits)
  have gc: "sint (fst (GetCount (fst (snd (Push p item))))) = sint (fst (GetCount p)) + 1"
    if "fst (Push p item) = Inr ()" and "length (pool p) + 1 < 2 ^ 31"
  proof -
    from that have "length (pool (fst (snd (Push p item)))) < 2 ^ 31"
      and "length (pool p) < 2 ^ 31"
      by (simp_all add: g)
    then have "sint (fst (GetCount (fst (snd (Push p item)))))
        = int (length (pool (fst (snd (Push p item)))))"
      and "sint (fst (GetCount p)) = int (length (pool p))"
      unfolding GetCount_def fst_conv by (simp_all only: sint_count)
    then show ?thesis
      by (simp add: g [OF that(1)])
  qed
  have tc: "sint (fst (GetCount (fst (snd (Pop q))))) = sint (fst (GetCount q)) - 1"
    if "fst (Pop q) = Inr obj" and "length (pool q) < 2 ^ 31"
  proof -
    from t [OF that(1)] that(2)
    have "length (pool (fst (snd (Pop q)))) < 2 ^ 31"
      and d: "int (length (pool (fst (snd (Pop q))))) = int (length (pool q)) - 1"
      by simp_all
    with that(2) have "sint (fst (GetCount (fst (snd (Pop q)))))
        = int (length (pool (fst (snd (Pop q)))))"
      and "sint (fst (GetCount q)) = int (length (pool q))"
      unfolding GetCount_def fst_conv by (simp_all only: sint_count)
    with d show ?thesis
      by simp
  qed
  from n c g t gc tc show ?thesis by blast
qed

lemma store_accounting_main:
  "length (pool (final_pool (ObjectPool 10) main_calls)) < 2 ^ 31
   \<and> sint (fst (GetCount (final_pool (ObjectPool 10) main_calls))) = 1
   \<and> successful_gives main_calls (outcomes (ObjectPool 10) main_calls) = 4
   \<and> successful_takes main_calls (outcomes (ObjectPool 10) main_calls) = 3
   \<and> fst (Push (ObjectPool 10) (Ptr 1)) = Inr ()
   \<and> length (pool (ObjectPool 10)) + 1 < 2 ^ 31
   \<and> sint (fst (GetCount (fst (snd (Push (ObjectPool 10) (Ptr 1)))))) = 1
   \<and> fst (Pop \<lparr>pool = [Ptr 1], capacity = 10\<rparr>) = Inr (Ptr 1)
   \<and> length (pool \<lparr>pool = [Ptr 1], capacity = 10\<rparr>) < 2 ^ 31
   \<and> sint (fst (GetCount (fst (snd (Pop \<lparr>pool = [Ptr 1], capacity = 10\<rparr>))))) = 0"
proof -
  have f: "final_pool (ObjectPool 10) main_calls = \<lparr>pool = [Ptr 1], capacity = 10\<rparr>"
    by (simp add: final_pool_def run_main)
  have g: "successful_gives main_calls (outcomes (ObjectPool 10) main_calls) = 4"
    by (simp add: outcomes_def run_main) (simp add: main_calls_def successful_gives_def)
  have t: "successful_takes main_calls (outcomes (ObjectPool 10) main_calls) = 3"
    by (simp add: outcomes_def run_main) (simp add: main_calls_def successful_takes_def)
  have h1: "length (pool (final_pool (ObjectPool 10) main_calls)) < 2 ^ 31"
    by (simp add: f)
  have h2: "fst (Push (ObjectPool 10) (Ptr 1)) = Inr ()"
    by (simp add: Push_def)
  have h3: "fst (Pop \<lparr>pool = [Ptr 1], capacity = 10\<rparr>) = Inr (Ptr 1)"
    by (simp add: Pop_def)
  have h4: "length (pool (ObjectPool 10)) + 1 < 2 ^ 31"
    and h5: "length (pool \<lparr>pool = [Ptr 1], capacity = 10\<rparr>) < 2 ^ 31"
    and c0: "sint (fst (GetCount (ObjectPool 10))) = 0"
    and c1: "sint (fst (GetCount \<lparr>pool = [Ptr 1], capacity = 10\<rparr>)) = 1"
    by (simp_all add: ObjectPool_def GetCount_def)
  from store_accounting [of 10 main_calls "ObjectPool 10" "Ptr 1"
      "\<lparr>pool = [Ptr 1], capacity = 10\<rparr>" "Ptr 1"] h1 h2 h3 h4 h5 c0 c1 g t
  show ?thesis by simp
qed

text \<open>
  Claim C7, amended. The destructor of a pool whose store holds k items deletes exactly
  those k entries, one deletion for each, from the top of the stack down, takes no lock and
  leaves the store empty. It deletes nothing that is not in the store. So it deletes no
  item that is lent out, as long as no caller has pushed a pointer that the store already
  held.
\<close>

theorem teardown_containment:
  "ObjectPool_dtor q = (q\<lparr>pool := []\<rparr>, map Delete (pool q))
   \<and> length (snd (ObjectPool_dtor q)) = length (pool q)
   \<and> (x \<notin> set (pool q) \<longrightarrow> Delete x \<notin> set (snd (ObjectPool_dtor q)))
   \<and> (no_double_give (ObjectPool cap) cs \<longrightarrow>
        (\<forall>x \<in> set (lent_out (ObjectPool cap) cs).
           Delete x \<notin> set (snd (ObjectPool_dtor (final_pool (ObjectPool cap) cs)))))"
proof -
  have d: "ObjectPool_dtor r = (r\<lparr>pool := []\<rparr>, map Delete (pool r))" for r
    by (rule ObjectPool_dtor_eq)
  have l: "Delete x \<notin> set (snd (ObjectPool_dtor (final_pool (ObjectPool cap) cs)))"
    if "no_double_give (ObjectPool cap) cs" and "x \<in> set (lent_out (ObjectPool cap) cs)" for x
  proof -
    have "set (foldl lend [] (zip cs (fst (run (ObjectPool cap) cs))))
        \<inter> set (pool (fst (snd (run (ObjectPool cap) cs)))) = {}"
      using that(1) by (rule lend_run) (simp_all add: ObjectPool_def)
    with that(2) have "x \<notin> set (pool (final_pool (ObjectPool cap) cs))"
      by (auto simp: lent_out_def outcomes_def final_pool_def)
    then show ?thesis
      by (auto simp: d)
  qed
  from l show ?thesis
    by (auto simp: d)
qed

theorem teardown_containment_witness:
  "no_double_give (ObjectPool 10) main_calls
   \<and> lent_out (ObjectPool 10) main_calls = [Ptr 3, Ptr 2]
   \<and> ObjectPool_dtor (final_pool (ObjectPool 10) main_calls)
       = (ObjectPool 10, [Delete (Ptr 1)])
   \<and> Ptr 3 \<notin> set (pool (final_pool (ObjectPool 10) main_calls))
   \<and> Delete (Ptr 3) \<notin> set (snd (ObjectPool_dtor (final_pool (ObjectPool 10) main_calls)))
   \<and> Delete (Ptr 2) \<notin> set (snd (ObjectPool_dtor (final_pool (ObjectPool 10) main_calls)))"
proof -
  have f: "final_pool (ObjectPool 10) main_calls = \<lparr>pool = [Ptr 1], capacity = 10\<rparr>"
    by (simp add: final_pool_def run_main)
  have h: "Ptr 3 \<notin> set (pool (final_pool (ObjectPool 10) main_calls))"
    by (simp add: f)
  from teardown_containment [of "final_pool (ObjectPool 10) main_calls" "Ptr 3" 10 main_calls]
    h no_double_give_main lent_main
  show ?thesis unfolding f by (simp add: ObjectPool_def)
qed

text \<open>
  Without that proviso the claim fails: after \<open>Push\<close> of one pointer twice and one
  \<open>Pop\<close>, the pointer is lent out and still in the store, and the destructor deletes it.
\<close>

theorem teardown_containment_counterexample:
  "Ptr 1 \<in> set (lent_out (ObjectPool 10) [Call_Push (Ptr 1), Call_Push (Ptr 1), Call_Pop])
   \<and> Delete (Ptr 1) \<in> set (snd (ObjectPool_dtor
        (final_pool (ObjectPool 10) [Call_Push (Ptr 1), Call_Push (Ptr 1), Call_Pop])))"
  by (simp add: lent_out_def outcomes_def final_pool_def ObjectPool_def invoke_def Push_def
      Pop_def ObjectPool_dtor_eq)

text \<open>
  Claim C8. Whatever calls are made on a pool constructed with capacity \<open>cap\<close>,
  \<open>GetCapacity\<close> still returns \<open>cap\<close>: no single call changes the capacity.
\<close>

theorem capacity_immutable:
  "GetCapacity (final_pool (ObjectPool cap) cs) = cap
   \<and> GetCapacity (fst (snd (invoke p c))) = GetCapacity p"
  by (simp add: GetCapacity_def final_pool_def run_capacity invoke_capacity ObjectPool_def)

text \<open>
  Claim C9. Construction with any \<^verbatim>\<open>int\<close> capacity, zero and negative values included,
  has no failing branch: it yields a pool with an empty store, whose \<open>GetCount\<close> is 0 and
  whose \<open>GetCapacity\<close> is the argument.
\<close>

theorem construction_any_capacity:
  "pool (ObjectPool cap) = []
   \<and> fst (GetCount (ObjectPool cap)) = 0
   \<and> GetCapacity (ObjectPool cap) = cap
   \<and> GetCapacity (ObjectPool 0) = 0
   \<and> sint (GetCapacity (ObjectPool (- 1))) = - 1"
  by (simp add: ObjectPool_def GetCount_def GetCapacity_def)

text \<open>
  Claim C10. The store never holds \<open>nullptr\<close>: it does not after any sequence of calls on
  a freshly constructed pool, no \<open>Pop\<close> of such a sequence returns \<open>nullptr\<close>, \<open>Push\<close> of
  \<open>nullptr\<close> inserts nothing, and every single call keeps a store free of \<open>nullptr\<close> so,
  where a \<open>Pop\<close> cannot return \<open>nullptr\<close>.
\<close>

theorem store_never_holds_null:
  "nullptr \<notin> set (pool (final_pool (ObjectPool cap) cs))
   \<and> Returned_ptr nullptr \<notin> set (outcomes (ObjectPool cap) cs)
   \<and> pool (fst (snd (Push p nullptr))) = pool p
   \<and> (nullptr \<notin> set (pool p) \<longrightarrow>
        nullptr \<notin> set (pool (fst (snd (invoke p c)))) \<and> fst (Pop p) \<noteq> Inr nullptr)"
proof -
  have e: "nullptr \<notin> set (pool (ObjectPool cap))"
    by (simp add: ObjectPool_def)
  have "nullptr \<notin> set (pool (final_pool (ObjectPool cap) cs))
      \<and> Returned_ptr nullptr \<notin> set (outcomes (ObjectPool cap) cs)"
    unfolding final_pool_def outcomes_def using e by (rule run_nonnull)
  moreover have "pool (fst (snd (Push p nullptr))) = pool p"
    by (simp add: Push_def)
  moreover have "nullptr \<notin> set (pool (fst (snd (invoke p c))))" if "nullptr \<notin> set (pool p)"
    using invoke_nonnull [OF that] by simp
  moreover have "fst (Pop p) \<noteq> Inr nullptr" if "nullptr \<notin> set (pool p)"
    using that by (auto simp: Pop_def split: list.splits)
  ultimately show ?thesis by blast
qed

theorem store_never_holds_null_witness:
  "nullptr \<notin> set (pool \<lparr>pool = [Ptr 1], capacity = 10\<rparr>)
   \<and> nullptr \<notin> set (pool (fst (snd (invoke \<lparr>pool = [Ptr 1], capacity = 10\<rparr> (Call_Push nullptr)))))
   \<and> fst (Pop \<lparr>pool = [Ptr 1], capacity = 10\<rparr>) = Inr (Ptr 1)
   \<and> outcomes (ObjectPool 10) [Call_Push nullptr, Call_Push (Ptr 1), Call_Pop, Call_Pop]
       = [Threw invalid_argument, Returned, Returned_ptr (Ptr 1), Threw runtime_error]"
proof -
  have h: "nullptr \<notin> set (pool \<lparr>pool = [Ptr 1], capacity = 10\<rparr>)"
    by simp
  from store_never_holds_null [of 10 "[Call_Push nullptr, Call_Push (Ptr 1), Call_Pop, Call_Pop]"
      "\<lparr>pool = [Ptr 1], capacity = 10\<rparr>" "Call_Push nullptr"] h
  show ?thesis
    by (simp add: outcomes_def ObjectPool_def invoke_def Push_def Pop_def)
qed

end
